theory Spec2Isabelle
  imports Main "HOL-Library.Word"
begin

section \<open>BufferedFileWriter: the data model\<close>

text \<open>
  The class \<^verbatim>\<open>BufferedFileWriter\<close> (BufferedFileWriter.h, BufferedFileWriter.cpp) puts a
  fixed buffer in front of the file system's \<^verbatim>\<open>FS_FWrite\<close>. The embedding keeps the
  fields of the class in a record and passes the record, together with the state of the
  file system, through every member function.

  \<^item> \<^verbatim>\<open>char\<close> is a byte; \<^verbatim>\<open>uint32_t\<close> is a 32-bit word.
  \<^item> \<^verbatim>\<open>size_t\<close> is an unsigned integer whose width the sources do not fix: it is
    \<open>'sz word\<close>, and \<open>++bytesWrittenTotal\<close> wraps around as the C++ does. The record
    takes the counter's type as its parameter, and \<open>'sz writer\<close> instantiates it with
    \<open>'sz word\<close>.
  \<^item> The arrays \<^verbatim>\<open>buff\<close> and \<^verbatim>\<open>lineBuff\<close> are stores from offsets to bytes. The
    constructor does not initialise them, so their first content is whatever the
    storage held.
  \<^item> \<^verbatim>\<open>writePtr\<close> is kept as its offset from \<^verbatim>\<open>buff\<close>; \<^verbatim>\<open>writeEndPtr\<close> is assigned
    once, in the constructor, to \<^verbatim>\<open>buff + sizeof(buff)\<close>, and is the constant offset
    \<open>BufferSize\<close>.
  \<^item> \<^verbatim>\<open>FS_FILE *\<close> is an address, \<open>None\<close> for \<^verbatim>\<open>NULL\<close>; the field \<^verbatim>\<open>file\<close> is named
    \<open>filePtr\<close> here.
\<close>

type_synonym byte = "8 word"
type_synonym u32 = "32 word"
type_synonym FS_FILE = nat

definition BufferSize :: nat where
  "BufferSize = 4096"

definition LineBuffSize :: nat where
  "LineBuffSize = 2048"

definition WriteNoFile :: u32 where
  "WriteNoFile = 0xFFFFFFFF"

definition writeEndPtr :: nat where
  "writeEndPtr = BufferSize"

record 'counter writer_fields =
  buff :: "nat \<Rightarrow> byte"
  lineBuff :: "nat \<Rightarrow> byte"
  filePtr :: "FS_FILE option"
  writePtr :: nat
  bytesWrittenTotal :: 'counter

type_synonym 'sz writer = "'sz word writer_fields"

subsection \<open>The file system\<close>

text \<open>
  Modelled from the spec: \<^verbatim>\<open>FS_FWrite\<close> (declared in FS.h, which is not part of the
  sources) is the blocking write primitive of section 6: given a handle, a byte buffer
  and a length it attempts the write and returns a status code. The model records every
  call (handle and bytes handed over, oldest first) and answers the k-th call with
  \<open>fs_reply k\<close>, an arbitrary code, so that every behaviour of the file system is covered.
\<close>

record fs =
  fs_calls :: "(FS_FILE \<times> byte list) list"
  fs_reply :: "nat \<Rightarrow> u32"

definition FS_FWrite :: "byte list \<Rightarrow> FS_FILE \<Rightarrow> fs \<Rightarrow> u32 \<times> fs" where
  "FS_FWrite pData pFile w =
     (fs_reply w (length (fs_calls w)), w\<lparr>fs_calls := fs_calls w @ [(pFile, pData)]\<rparr>)"

section \<open>The member functions\<close>

definition clear :: "'sz::len writer \<Rightarrow> 'sz writer" where
  "clear s = s\<lparr>writePtr := 0\<rparr>"

text \<open>The constructor runs on the raw storage of the object.\<close>

definition BufferedFileWriter :: "'sz::len writer \<Rightarrow> 'sz writer" where
  "BufferedFileWriter raw = clear (raw\<lparr>bytesWrittenTotal := 0, filePtr := None\<rparr>)"

definition setFile :: "'sz::len writer \<Rightarrow> FS_FILE option \<Rightarrow> 'sz writer" where
  "setFile s f = clear (s\<lparr>filePtr := f\<rparr>)"

definition bufferCount :: "'sz::len writer \<Rightarrow> nat" where
  "bufferCount s = writePtr s - 0"

definition resetBytesWrittenTotal :: "'sz::len writer \<Rightarrow> 'sz writer" where
  "resetBytesWrittenTotal s = s\<lparr>bytesWrittenTotal := 0\<rparr>"

definition getBytesWrittenTotal :: "'sz::len writer \<Rightarrow> 'sz word" where
  "getBytesWrittenTotal s = bytesWrittenTotal s"

text \<open>
  \<^verbatim>\<open>flush\<close>: the bytes handed to \<^verbatim>\<open>FS_FWrite(buff, writePtr - buff, 1, file)\<close> are the
  first \<open>writePtr\<close> bytes of \<open>buff\<close>. The calls of \<^verbatim>\<open>setDebug4\<close> toggle a debug pin and are
  left out.
\<close>

definition flush :: "'sz::len writer \<Rightarrow> fs \<Rightarrow> u32 \<times> 'sz writer \<times> fs" where
  "flush s w =
     (case filePtr s of
        None \<Rightarrow> (WriteNoFile, s, w)
      | Some f \<Rightarrow>
          if writePtr s > 0 then
            (let (retval, w') = FS_FWrite (map (buff s) [0..<writePtr s]) f w
             in (retval, s\<lparr>writePtr := 0\<rparr>, w'))
          else (0, s, w))"

text \<open>The destructor flushes what is buffered when a handle is still attached.\<close>

definition BufferedFileWriter_dtor :: "'sz::len writer \<Rightarrow> fs \<Rightarrow> 'sz writer \<times> fs" where
  "BufferedFileWriter_dtor s w =
     (if filePtr s \<noteq> None then
        (let (retval, s', w') = flush s w in (s'\<lparr>filePtr := None\<rparr>, w'))
      else (s, w))"

text \<open>
  The loop of \<^verbatim>\<open>write\<close>. The list \<open>source\<close> is the \<^verbatim>\<open>nChars\<close> bytes at the pointer
  \<^verbatim>\<open>source\<close>: one round stores the head at \<open>writePtr\<close>, advances the pointer, counts the
  byte and flushes when \<open>writePtr\<close> has reached \<open>writeEndPtr\<close>. The member function
  \<^verbatim>\<open>write\<close> itself is \<open>write_bytes\<close>. The store \<^verbatim>\<open>*writePtr++ = *source++\<close> lies inside
  \<^verbatim>\<open>buff\<close> as long as \<open>writePtr < BufferSize\<close> on entry, which holds in every state a caller
  can reach (claim C10 below).
\<close>

fun write_loop :: "'sz::len writer \<Rightarrow> fs \<Rightarrow> byte list \<Rightarrow> u32 \<Rightarrow> u32 \<times> 'sz writer \<times> fs" where
  "write_loop s w [] retval = (retval, s, w)"
| "write_loop s w (c # source) retval =
     (let s1 = s\<lparr>buff := (buff s)(writePtr s := c),
                  writePtr := writePtr s + 1,
                  bytesWrittenTotal := bytesWrittenTotal s + 1\<rparr>
      in if writePtr s1 \<ge> writeEndPtr then
           (let (retval', s2, w2) = flush s1 w in write_loop s2 w2 source retval')
         else write_loop s1 w source retval)"

definition write_bytes :: "'sz::len writer \<Rightarrow> fs \<Rightarrow> byte list \<Rightarrow> u32 \<times> 'sz writer \<times> fs" where
  "write_bytes s w source =
     (if filePtr s = None then (WriteNoFile, s, w) else write_loop s w source 0)"

text \<open>
  \<^verbatim>\<open>writeStr\<close>: the argument is \<open>None\<close> for \<^verbatim>\<open>NULL\<close>, otherwise the bytes at the pointer;
  \<^verbatim>\<open>strlen\<close> counts the bytes before the first zero byte.
\<close>

definition strlen :: "byte list \<Rightarrow> nat" where
  "strlen string = length (takeWhile (\<lambda>c. c \<noteq> 0) string)"

definition writeStr :: "'sz::len writer \<Rightarrow> fs \<Rightarrow> byte list option \<Rightarrow> u32 \<times> 'sz writer \<times> fs" where
  "writeStr s w string =
     (case string of
        None \<Rightarrow> (0, s, w)
      | Some str \<Rightarrow> write_bytes s w (take (strlen str) str))"

text \<open>
  Modelled from the spec: \<^verbatim>\<open>vsnprintf\<close> belongs to the C library, not to the sources. It
  follows the standard formatting truncation rule of sections 3 and 4.1:
  \<^verbatim>\<open>vsnprintf(str, n, ...)\<close> stores at most \<open>n - 1\<close> bytes of the expansion and a terminating
  zero byte, leaves the rest of \<open>str\<close> as it was, and returns the length of the whole
  expansion, which may exceed what was stored (encoding errors, which return a negative
  number, are not modelled). The format and its arguments are represented by \<open>txt\<close>, the
  text they expand to.
\<close>

definition vsnprintf :: "(nat \<Rightarrow> byte) \<Rightarrow> nat \<Rightarrow> byte list \<Rightarrow> (nat \<Rightarrow> byte) \<times> int" where
  "vsnprintf str n txt =
     (let k = min (length txt) (n - 1)
      in ((if n = 0 then str
           else (\<lambda>i. if i < k then txt ! i else if i = k then 0 else str i)),
          int (length txt)))"

text \<open>
  \<^verbatim>\<open>logPrintf\<close>. The argument is \<open>None\<close> for a \<^verbatim>\<open>NULL\<close> format, otherwise the text that the
  format and its arguments expand to.

  The body of \<^verbatim>\<open>logPrintf\<close> has three ways to leave defined behaviour, and the model has a
  branch for each:
  \<^item> it hands \<^verbatim>\<open>fmt\<close> to \<^verbatim>\<open>vsnprintf\<close> unchecked, and a \<^verbatim>\<open>NULL\<close> format is undefined
    there (\<open>NullFormat\<close>);
  \<^item> it passes the returned length to \<^verbatim>\<open>write\<close>, converted to \<^verbatim>\<open>size_t\<close>, so the loop
    reads that many bytes from \<^verbatim>\<open>lineBuff\<close>, which has \<open>LineBuffSize + 1\<close> of them
    (\<open>LineBuffOverread\<close> when the loop would read more);
  \<^item> it has no \<^verbatim>\<open>return\<close> statement, so no \<^verbatim>\<open>bool\<close> is ever produced: the returned value
    is \<open>None\<close>, and the code of \<^verbatim>\<open>write\<close> is dropped.
\<close>

datatype undefined_behaviour = NullFormat | LineBuffOverread

definition logPrintf ::
  "'sz::len writer \<Rightarrow> fs \<Rightarrow> byte list option \<Rightarrow>
     undefined_behaviour + (bool option \<times> 'sz writer \<times> fs)" where
  "logPrintf s w fmt =
     (case fmt of
        None \<Rightarrow> Inl NullFormat
      | Some txt \<Rightarrow>
          (let (lb, nChars) = vsnprintf (lineBuff s) LineBuffSize txt;
               s1 = s\<lparr>lineBuff := lb\<rparr>;
               n = unat (word_of_int nChars :: 'sz word)
           in if filePtr s1 \<noteq> None \<and> n > LineBuffSize + 1 then Inl LineBuffOverread
              else (let (retval, s2, w2) = write_bytes s1 w (map lb [0..<n])
                    in Inr (None, s2, w2))))"

section \<open>Callers\<close>

text \<open>
  A caller issues public calls one after the other. \<open>perform\<close> runs one call on the
  writer and the file system and drops its return code; \<open>perform_all\<close> runs a sequence
  from left to right. \<open>bytes_passed\<close> is the byte length a call hands to the writer.
\<close>

datatype call =
    Write "byte list"
  | WriteStr "byte list option"
  | Flush
  | Clear
  | SetFile "FS_FILE option"
  | ResetBytesWrittenTotal

fun perform :: "call \<Rightarrow> 'sz::len writer \<times> fs \<Rightarrow> 'sz writer \<times> fs" where
  "perform (Write source) (s, w) = snd (write_bytes s w source)"
| "perform (WriteStr string) (s, w) = snd (writeStr s w string)"
| "perform Flush (s, w) = snd (flush s w)"
| "perform Clear (s, w) = (clear s, w)"
| "perform (SetFile f) (s, w) = (setFile s f, w)"
| "perform ResetBytesWrittenTotal (s, w) = (resetBytesWrittenTotal s, w)"

definition perform_all :: "call list \<Rightarrow> 'sz::len writer \<times> fs \<Rightarrow> 'sz writer \<times> fs" where
  "perform_all cs st = fold perform cs st"

fun bytes_passed :: "call \<Rightarrow> nat" where
  "bytes_passed (Write source) = length source"
| "bytes_passed (WriteStr (Some str)) = strlen str"
| "bytes_passed _ = 0"

text \<open>The bytes that wait in the buffer: what a flush would hand to the file system.\<close>

definition buffered :: "'sz::len writer \<Rightarrow> byte list" where
  "buffered s = map (buff s) [0..<writePtr s]"

text \<open>
  Concrete surroundings for the worked examples: the zero-filled storage of a static
  instance, a writer constructed there and attached to the file at address 1, and a file
  system that has seen no call yet and answers every call with the code \<open>r\<close>.
\<close>

definition static_storage :: "32 writer" where
  "static_storage =
     \<lparr>buff = (\<lambda>_. 0), lineBuff = (\<lambda>_. 0), filePtr = None, writePtr = 0,
      bytesWrittenTotal = 0\<rparr>"

definition attached_writer :: "32 writer" where
  "attached_writer = setFile (BufferedFileWriter static_storage) (Some 1)"

definition fs_idle :: "u32 \<Rightarrow> fs" where
  "fs_idle r = \<lparr>fs_calls = [], fs_reply = (\<lambda>_. r)\<rparr>"

section \<open>The loop of write\<close>

text \<open>Writing a concatenation is writing its parts one after the other.\<close>

lemma write_loop_append:
  "write_loop s w (xs @ ys) r =
     (case write_loop s w xs r of (r', s', w') \<Rightarrow> write_loop s' w' ys r')"
  by (induction xs arbitrary: s w r) (simp_all add: Let_def split: prod.splits)

text \<open>
  Whatever the file system answers, the loop counts every byte, and it touches neither
  the handle, nor the line buffer, nor the answers the file system will give.
\<close>

lemma write_loop_frame:
  "write_loop s w src r = (r', s', w') \<Longrightarrow>
     bytesWrittenTotal s' = bytesWrittenTotal s + of_nat (length src) \<and>
     filePtr s' = filePtr s \<and> lineBuff s' = lineBuff s \<and> fs_reply w' = fs_reply w"
proof (induction src arbitrary: s w r)
  case Nil
  then show ?case by simp
next
  case (Cons c src)
  then show ?case
    by (auto simp: Let_def flush_def FS_FWrite_def split: if_splits prod.splits option.splits)
qed

text \<open>Bytes that leave room in the buffer are appended, and the file system is not called.\<close>

lemma write_loop_fits:
  "writePtr s + length src < BufferSize \<Longrightarrow>
   \<exists>s'. write_loop s w src r = (r, s', w) \<and> writePtr s' = writePtr s + length src \<and>
        buffered s' = buffered s @ src"
proof (induction src arbitrary: s)
  case Nil
  then show ?case by simp
next
  case (Cons c src)
  let ?s1 = "s\<lparr>buff := (buff s)(writePtr s := c), writePtr := writePtr s + 1,
                bytesWrittenTotal := bytesWrittenTotal s + 1\<rparr>"
  have "writePtr ?s1 + length src < BufferSize" using Cons.prems by simp
  from Cons.IH [OF this] obtain s' where
    s': "write_loop ?s1 w src r = (r, s', w)" "writePtr s' = writePtr ?s1 + length src"
      "buffered s' = buffered ?s1 @ src"
    by blast
  have "buffered ?s1 = buffered s @ [c]" by (simp add: buffered_def)
  with s' Cons.prems show ?case by (simp add: writeEndPtr_def)
qed

text \<open>
  Bytes that fill the buffer to its last place are handed to the file system in one call,
  by the flush that the last of them triggers.
\<close>

lemma write_loop_fills:
  assumes "filePtr s = Some f" and "writePtr s + length src = BufferSize" and "src \<noteq> []"
  shows "\<exists>s'. write_loop s w src r =
            (fs_reply w (length (fs_calls w)), s',
             w\<lparr>fs_calls := fs_calls w @ [(f, buffered s @ src)]\<rparr>) \<and> writePtr s' = 0"
proof -
  from assms(3) obtain xs x where src: "src = xs @ [x]" by (cases src rule: rev_cases) auto
  with assms(2) have "writePtr s + length xs < BufferSize" by simp
  from write_loop_fits [OF this, of w r] obtain s1 where
    s1: "write_loop s w xs r = (r, s1, w)" "writePtr s1 = writePtr s + length xs"
      "buffered s1 = buffered s @ xs"
    by blast
  from write_loop_frame [OF s1(1)] assms(1) have f1: "filePtr s1 = Some f" by simp
  have full: "Suc (writePtr s1) = BufferSize" using s1(2) assms(2) src by simp
  have "map ((buff s1)(writePtr s1 := x)) [0..<BufferSize] = buffered s1 @ [x]"
    unfolding full [symmetric] by (simp add: buffered_def)
  then show ?thesis
    using s1 f1 full unfolding src write_loop_append
    by (simp add: Let_def writeEndPtr_def flush_def FS_FWrite_def)
qed

text \<open>With a handle attached, the loop never leaves the buffer full.\<close>

lemma write_loop_inv:
  "filePtr s \<noteq> None \<Longrightarrow> writePtr s < BufferSize \<Longrightarrow> write_loop s w src r = (r', s', w') \<Longrightarrow>
   writePtr s' < BufferSize"
proof (induction src arbitrary: s w r)
  case Nil
  then show ?case by simp
next
  case (Cons c src)
  let ?s1 = "s\<lparr>buff := (buff s)(writePtr s := c), writePtr := writePtr s + 1,
                bytesWrittenTotal := bytesWrittenTotal s + 1\<rparr>"
  from Cons.prems(1) obtain f where f: "filePtr s = Some f" by auto
  show ?case
  proof (cases "writePtr ?s1 \<ge> writeEndPtr")
    case True
    let ?s2 = "?s1\<lparr>writePtr := 0\<rparr>"
    let ?w2 = "w\<lparr>fs_calls := fs_calls w @ [(f, map (buff ?s1) [0..<writePtr ?s1])]\<rparr>"
    have "flush ?s1 w = (fs_reply w (length (fs_calls w)), ?s2, ?w2)"
      using f by (simp add: flush_def FS_FWrite_def)
    with True Cons.prems(3)
    have "write_loop ?s2 ?w2 src (fs_reply w (length (fs_calls w))) = (r', s', w')"
      by (simp add: Let_def)
    moreover have "filePtr ?s2 \<noteq> None" "writePtr ?s2 < BufferSize"
      using f by (simp_all add: BufferSize_def)
    ultimately show ?thesis by (rule Cons.IH [rotated 2])
  next
    case False
    with Cons.prems(3) have "write_loop ?s1 w src r = (r', s', w')"
      by (simp add: Let_def)
    moreover have "filePtr ?s1 \<noteq> None" "writePtr ?s1 < BufferSize"
      using f False by (simp_all add: writeEndPtr_def)
    ultimately show ?thesis by (rule Cons.IH [rotated 2])
  qed
qed

lemma BufferSize_pos: "0 < BufferSize"
  by (simp add: BufferSize_def)

text \<open>
  Nothing is lost or reordered on the way: the bytes of the calls that the loop issues,
  followed by the bytes still buffered, are the bytes buffered before followed by the
  source; every call goes to the attached handle and carries a full buffer.
\<close>

lemma write_loop_stream:
  "filePtr s = Some f \<Longrightarrow> writePtr s < BufferSize \<Longrightarrow> write_loop s w src r = (r', s', w') \<Longrightarrow>
   \<exists>new. fs_calls w' = fs_calls w @ new \<and>
         concat (map snd new) @ buffered s' = buffered s @ src \<and>
         list_all (\<lambda>c. fst c = f \<and> length (snd c) = BufferSize) new"
proof (induction src arbitrary: s w r)
  case Nil
  then show ?case by simp
next
  case (Cons c src)
  let ?s1 = "s\<lparr>buff := (buff s)(writePtr s := c), writePtr := writePtr s + 1,
                bytesWrittenTotal := bytesWrittenTotal s + 1\<rparr>"
  have b1: "buffered ?s1 = buffered s @ [c]" by (simp add: buffered_def)
  show ?case
  proof (cases "writePtr ?s1 \<ge> writeEndPtr")
    case True
    let ?s2 = "?s1\<lparr>writePtr := 0\<rparr>"
    let ?w2 = "w\<lparr>fs_calls := fs_calls w @ [(f, buffered ?s1)]\<rparr>"
    have "flush ?s1 w = (fs_reply w (length (fs_calls w)), ?s2, ?w2)"
      using Cons.prems(1) by (simp add: flush_def FS_FWrite_def buffered_def)
    with True Cons.prems(3)
    have run: "write_loop ?s2 ?w2 src (fs_reply w (length (fs_calls w))) = (r', s', w')"
      by (simp add: Let_def)
    have "filePtr ?s2 = Some f" "writePtr ?s2 < BufferSize"
      using Cons.prems(1) BufferSize_pos by simp_all
    from Cons.IH [OF this run] obtain new where
      new: "fs_calls w' = fs_calls ?w2 @ new"
        "concat (map snd new) @ buffered s' = buffered ?s2 @ src"
        "list_all (\<lambda>c. fst c = f \<and> length (snd c) = BufferSize) new"
      by blast
    have len: "length (buffered ?s1) = BufferSize"
      using True Cons.prems(2) by (simp add: buffered_def writeEndPtr_def)
    have "buffered ?s2 = []" by (simp add: buffered_def)
    with new b1 len have
      "fs_calls w' = fs_calls w @ ((f, buffered ?s1) # new)"
      "concat (map snd ((f, buffered ?s1) # new)) @ buffered s' = buffered s @ c # src"
      "list_all (\<lambda>c. fst c = f \<and> length (snd c) = BufferSize) ((f, buffered ?s1) # new)"
      by simp_all
    then show ?thesis by blast
  next
    case False
    with Cons.prems(3) have run: "write_loop ?s1 w src r = (r', s', w')"
      by (simp add: Let_def)
    have "filePtr ?s1 = Some f" "writePtr ?s1 < BufferSize"
      using Cons.prems(1) False by (simp_all add: writeEndPtr_def)
    from Cons.IH [OF this run] b1 show ?thesis by simp
  qed
qed

section \<open>Sequences of calls\<close>

text \<open>The code that the loop starts with does not influence the writer or the file system.\<close>

lemma write_loop_retval:
  "snd (write_loop s w src r) = snd (write_loop s w src r0)"
  by (induction src arbitrary: s w r r0) (simp_all add: Let_def split: prod.splits)

lemma perform_all_Cons: "perform_all (c # cs) st = perform_all cs (perform c st)"
  by (simp add: perform_all_def)

lemma perform_all_Nil: "perform_all [] st = st"
  by (simp add: perform_all_def)

text \<open>
  With a handle attached, a sequence of \<^verbatim>\<open>write\<close> calls acts on the writer and the file
  system as the loop run once over the concatenation of the sources.
\<close>

lemma perform_writes:
  "filePtr s = Some f \<Longrightarrow>
   perform_all (map Write srcs) (s, w) = snd (write_loop s w (concat srcs) 0)"
proof (induction srcs arbitrary: s w)
  case Nil
  then show ?case by (simp add: perform_all_Nil)
next
  case (Cons src srcs)
  obtain r1 s1 w1 where run: "write_loop s w src 0 = (r1, s1, w1)"
    by (cases "write_loop s w src 0") auto
  from write_loop_frame [OF run] Cons.prems have "filePtr s1 = Some f" by simp
  from Cons.IH [OF this, of w1]
  have "perform_all (map Write srcs) (s1, w1) = snd (write_loop s1 w1 (concat srcs) r1)"
    by (simp add: write_loop_retval [of s1 w1 "concat srcs" r1 0])
  with run Cons.prems show ?case
    by (simp add: perform_all_Cons write_bytes_def write_loop_append)
qed

lemma writes_fit:
  assumes "filePtr s = Some f" and "writePtr s = 0" and "sum_list (map length srcs) < BufferSize"
  shows "\<exists>s'. perform_all (map Write srcs) (s, w) = (s', w) \<and> filePtr s' = Some f \<and>
              writePtr s' = length (concat srcs) \<and> buffered s' = concat srcs"
proof -
  have len: "length (concat srcs) = sum_list (map length srcs)" by (simp add: length_concat)
  with assms have "writePtr s + length (concat srcs) < BufferSize" by simp
  from write_loop_fits [OF this, of w 0] obtain s' where
    s': "write_loop s w (concat srcs) 0 = (0, s', w)"
      "writePtr s' = writePtr s + length (concat srcs)"
      "buffered s' = buffered s @ concat srcs"
    by blast
  have "buffered s = []" using assms(2) by (simp add: buffered_def)
  with s' assms write_loop_frame [OF s'(1)] perform_writes [OF assms(1), of srcs w]
  show ?thesis by simp
qed

lemma writes_fill:
  assumes "filePtr s = Some f" and "writePtr s = 0" and "sum_list (map length srcs) = BufferSize"
  shows "\<exists>s'. perform_all (map Write srcs) (s, w) =
              (s', w\<lparr>fs_calls := fs_calls w @ [(f, concat srcs)]\<rparr>) \<and>
              filePtr s' = Some f \<and> writePtr s' = 0"
proof -
  have len: "length (concat srcs) = sum_list (map length srcs)" by (simp add: length_concat)
  with assms have full: "writePtr s + length (concat srcs) = BufferSize" by simp
  have "length (concat srcs) \<noteq> 0" using len assms(3) BufferSize_pos by linarith
  then have "concat srcs \<noteq> []" by (simp only: length_0_conv not_False_eq_True)
  from write_loop_fills [OF assms(1) full this, of w 0] obtain s' where
    s': "write_loop s w (concat srcs) 0 =
           (fs_reply w (length (fs_calls w)), s',
            w\<lparr>fs_calls := fs_calls w @ [(f, buffered s @ concat srcs)]\<rparr>)"
      "writePtr s' = 0"
    by blast
  have "buffered s = []" using assms(2) by (simp add: buffered_def)
  with s' assms write_loop_frame [OF s'(1)] perform_writes [OF assms(1), of srcs w]
  show ?thesis by simp
qed

text \<open>
  With a handle attached, every call but a reset of the counter adds the bytes it passes
  to \<open>bytesWrittenTotal\<close>, and every call but a detaching \<^verbatim>\<open>setFile(NULL)\<close> keeps a handle
  attached.
\<close>

lemma perform_counts:
  assumes "filePtr s = Some f" and "c \<noteq> ResetBytesWrittenTotal" and "c \<noteq> SetFile None"
  shows "filePtr (fst (perform c (s, w))) \<noteq> None \<and>
         bytesWrittenTotal (fst (perform c (s, w))) =
           bytesWrittenTotal s + of_nat (bytes_passed c)"
proof (cases c)
  case (Write src)
  obtain r' s' w' where run: "write_loop s w src 0 = (r', s', w')"
    by (cases "write_loop s w src 0") auto
  from write_loop_frame [OF run] run assms(1) Write show ?thesis
    by (simp add: write_bytes_def)
next
  case (WriteStr string)
  show ?thesis
  proof (cases string)
    case None
    with WriteStr assms(1) show ?thesis by (simp add: writeStr_def)
  next
    case (Some str)
    let ?src = "take (strlen str) str"
    have len: "length ?src = strlen str"
      by (simp add: strlen_def length_takeWhile_le)
    obtain r' s' w' where run: "write_loop s w ?src 0 = (r', s', w')"
      by (cases "write_loop s w ?src 0") auto
    from write_loop_frame [OF run] run assms(1) WriteStr Some len show ?thesis
      by (simp add: writeStr_def write_bytes_def)
  qed
next
  case Flush
  with assms(1) show ?thesis by (simp add: flush_def FS_FWrite_def)
next
  case Clear
  with assms(1) show ?thesis by (simp add: clear_def)
next
  case (SetFile h)
  with assms show ?thesis by (cases h) (simp_all add: setFile_def clear_def)
next
  case ResetBytesWrittenTotal
  with assms(2) show ?thesis by simp
qed

lemma perform_all_counts:
  assumes "filePtr s \<noteq> None" and "ResetBytesWrittenTotal \<notin> set cs" and "SetFile None \<notin> set cs"
  shows "bytesWrittenTotal (fst (perform_all cs (s, w))) =
           bytesWrittenTotal s + of_nat (sum_list (map bytes_passed cs))"
  using assms
proof (induction cs arbitrary: s w)
  case Nil
  then show ?case by (simp add: perform_all_Nil)
next
  case (Cons c cs)
  from Cons.prems(1) obtain f where f: "filePtr s = Some f" by auto
  obtain s1 w1 where p: "perform c (s, w) = (s1, w1)" by (cases "perform c (s, w)") auto
  from Cons.prems have "c \<noteq> ResetBytesWrittenTotal" "c \<noteq> SetFile None" by auto
  from perform_counts [OF f this, of w] p have
    s1: "filePtr s1 \<noteq> None" "bytesWrittenTotal s1 = bytesWrittenTotal s + of_nat (bytes_passed c)"
    by simp_all
  from Cons.prems have "ResetBytesWrittenTotal \<notin> set cs" "SetFile None \<notin> set cs" by auto
  from Cons.IH [OF s1(1) this, of w1] s1(2) p show ?case
    by (simp add: perform_all_Cons)
qed

text \<open>Every public call keeps the cursor below the end of the buffer.\<close>

lemma perform_keeps_room:
  assumes "writePtr s < BufferSize"
  shows "writePtr (fst (perform c (s, w))) < BufferSize"
proof -
  have wr: "writePtr (fst (snd (write_bytes s w src))) < BufferSize" for src
  proof (cases "filePtr s")
    case None
    with assms show ?thesis by (simp add: write_bytes_def)
  next
    case (Some f)
    obtain r' s' w' where run: "write_loop s w src 0 = (r', s', w')"
      by (cases "write_loop s w src 0") auto
    have "filePtr s \<noteq> None" using Some by simp
    from write_loop_inv [OF this assms run] run Some show ?thesis
      by (simp add: write_bytes_def)
  qed
  show ?thesis
  proof (cases c)
    case (Write src)
    with wr [of src] show ?thesis by simp
  next
    case (WriteStr string)
    with wr assms show ?thesis by (cases string) (simp_all add: writeStr_def)
  next
    case Flush
    with assms BufferSize_pos show ?thesis
      by (simp add: flush_def FS_FWrite_def split: option.splits)
  next
    case Clear
    with BufferSize_pos show ?thesis by (simp add: clear_def)
  next
    case (SetFile h)
    with BufferSize_pos show ?thesis by (simp add: setFile_def clear_def)
  next
    case ResetBytesWrittenTotal
    with assms show ?thesis by (simp add: resetBytesWrittenTotal_def)
  qed
qed

lemma perform_all_keeps_room:
  "writePtr s < BufferSize \<Longrightarrow> writePtr (fst (perform_all cs (s, w))) < BufferSize"
proof (induction cs arbitrary: s w)
  case Nil
  then show ?case by (simp add: perform_all_Nil)
next
  case (Cons c cs)
  obtain s1 w1 where p: "perform c (s, w) = (s1, w1)" by (cases "perform c (s, w)") auto
  with perform_keeps_room [OF Cons.prems, of c w] have "writePtr s1 < BufferSize" by simp
  from Cons.IH [OF this, of w1] p show ?case by (simp add: perform_all_Cons)
qed

section \<open>The formatted write\<close>

lemma map_nth_take: "n \<le> length xs \<Longrightarrow> map (\<lambda>i. xs ! i) [0..<n] = take n xs"
proof -
  assume "n \<le> length xs"
  have "take n xs = take n (map (\<lambda>i. xs ! i) [0..<length xs])" by (simp add: map_nth)
  also have "\<dots> = map (\<lambda>i. xs ! i) (take n [0..<length xs])" by (simp only: take_map)
  also have "take n [0..<length xs] = [0..<n]" using \<open>n \<le> length xs\<close> by simp
  finally show ?thesis by simp
qed

text \<open>
  A format whose expansion is one byte longer than \<open>LineBuffSize\<close>, written through an
  attached writer with an empty buffer: \<^verbatim>\<open>vsnprintf\<close> stores \<open>LineBuffSize - 1\<close> bytes and
  the terminator, and \<^verbatim>\<open>write\<close> is asked for \<open>LineBuffSize + 1\<close> bytes, so it also appends
  the terminator and the byte behind it, which \<^verbatim>\<open>vsnprintf\<close> never wrote.
\<close>

lemma logPrintf_one_too_long:
  fixes s :: "32 writer"
  assumes "filePtr s = Some f" and "writePtr s = 0" and "length txt = LineBuffSize + 1"
  shows "\<exists>s'. logPrintf s w (Some txt) = Inr (None, s', w) \<and>
              buffered s' = take (LineBuffSize - 1) txt @ [0, lineBuff s LineBuffSize] \<and>
              bytesWrittenTotal s' = bytesWrittenTotal s + of_nat (LineBuffSize + 1)"
proof -
  let ?lb = "\<lambda>i. if i < 2047 then txt ! i else if i = 2047 then 0 else lineBuff s i"
  let ?s1 = "s\<lparr>lineBuff := ?lb\<rparr>"
  let ?src = "map ?lb [0..<2049]"
  have l: "length txt = 2049" using assms(3) by (simp add: LineBuffSize_def)
  have v: "vsnprintf (lineBuff s) 2048 txt = (?lb, 2049)"
    using l by (simp add: vsnprintf_def Let_def)
  have n: "unat (word_of_int 2049 :: 32 word) = 2049" by simp
  have "[0..<2047 + 2] = [0..<2047] @ [2047..<2047 + 2]"
    by (rule upt_add_eq_append) simp
  then have "[0..<2049] = [0..<2047] @ [2047, 2048]" by simp
  moreover have "map ?lb [0..<2047] = map (\<lambda>i. txt ! i) [0..<2047]" by simp
  moreover have "\<dots> = take 2047 txt" using l by (intro map_nth_take) simp
  ultimately have src: "?src = take 2047 txt @ [0, lineBuff s 2048]" by simp
  have len: "length ?src = 2049" by simp
  have "writePtr ?s1 + length ?src < BufferSize"
    using assms(2) unfolding len by (simp add: BufferSize_def)
  from write_loop_fits [OF this, of w 0] obtain s' where
    s': "write_loop ?s1 w ?src 0 = (0, s', w)" "writePtr s' = writePtr ?s1 + length ?src"
      "buffered s' = buffered ?s1 @ ?src"
    by blast
  have t: "bytesWrittenTotal s' = bytesWrittenTotal s + 2049"
    using write_loop_frame [OF s'(1)] unfolding len by simp
  have b: "buffered s' = take 2047 txt @ [0, lineBuff s 2048]"
    using s'(3) assms(2) src by (simp add: buffered_def)
  have "logPrintf s w (Some txt) = Inr (None, s', w)"
    unfolding logPrintf_def LineBuffSize_def using v n assms(1) s'(1)
    by (simp add: write_bytes_def)
  with t b show ?thesis unfolding LineBuffSize_def by simp
qed

text \<open>A longer expansion makes the loop read behind the end of \<^verbatim>\<open>lineBuff\<close>.\<close>

lemma logPrintf_overread:
  fixes s :: "32 writer"
  assumes "filePtr s = Some f" and "LineBuffSize + 1 < length txt" and "length txt < 2 ^ 32"
  shows "logPrintf s w (Some txt) = Inl LineBuffOverread"
proof -
  have "unat (word_of_int (int (length txt)) :: 32 word) = length txt"
    using assms(3) by (simp add: of_nat_inverse)
  with assms(1,2) show ?thesis
    by (simp add: logPrintf_def vsnprintf_def Let_def)
qed

section \<open>The claims\<close>

text \<open>
  C3. \<^verbatim>\<open>flush()\<close> with no handle attached returns \<open>WriteNoFile\<close> and issues no underlying
  write. With a handle attached and nothing buffered it returns 0 and issues no underlying
  write. Otherwise it issues exactly one underlying write, of the \<open>bufferCount\<close> bytes at the
  start of the buffer, to the attached handle, sets the cursor back to 0 whatever the file
  system answers, and returns the file system's answer unchanged.
\<close>

theorem flush_contract:
  "(filePtr s = None \<longrightarrow> flush s w = (WriteNoFile, s, w)) \<and>
   (filePtr s = Some f \<and> bufferCount s = 0 \<longrightarrow> flush s w = (0, s, w)) \<and>
   (filePtr s = Some f \<and> bufferCount s > 0 \<longrightarrow>
      flush s w = (fst (FS_FWrite (buffered s) f w), s\<lparr>writePtr := 0\<rparr>,
                   snd (FS_FWrite (buffered s) f w)) \<and>
      fst (flush s w) = fs_reply w (length (fs_calls w)) \<and>
      fs_calls (snd (snd (flush s w))) = fs_calls w @ [(f, buffered s)] \<and>
      length (buffered s) = bufferCount s \<and>
      bufferCount (fst (snd (flush s w))) = 0)"
  by (simp add: flush_def bufferCount_def buffered_def FS_FWrite_def)

theorem flush_contract_witness:
  "filePtr (BufferedFileWriter static_storage) = None \<and>
   flush (BufferedFileWriter static_storage) (fs_idle 7) =
     (WriteNoFile, BufferedFileWriter static_storage, fs_idle 7) \<and>
   filePtr attached_writer = Some 1 \<and> bufferCount attached_writer = 0 \<and>
   flush attached_writer (fs_idle 7) = (0, attached_writer, fs_idle 7) \<and>
   filePtr (attached_writer\<lparr>buff := (\<lambda>_. 65), writePtr := 2\<rparr>) = Some 1 \<and>
   bufferCount (attached_writer\<lparr>buff := (\<lambda>_. 65), writePtr := 2\<rparr>) > 0 \<and>
   fst (flush (attached_writer\<lparr>buff := (\<lambda>_. 65), writePtr := 2\<rparr>) (fs_idle 7)) = 7 \<and>
   fs_calls (snd (snd (flush (attached_writer\<lparr>buff := (\<lambda>_. 65), writePtr := 2\<rparr>) (fs_idle 7))))
     = [(1, [65, 65])] \<and>
   bufferCount (fst (snd (flush (attached_writer\<lparr>buff := (\<lambda>_. 65), writePtr := 2\<rparr>) (fs_idle 7)))) = 0"
  using flush_contract [of "BufferedFileWriter static_storage" "fs_idle 7"]
    flush_contract [of attached_writer "fs_idle 7" 1]
    flush_contract [of "attached_writer\<lparr>buff := (\<lambda>_. 65), writePtr := 2\<rparr>" "fs_idle 7" 1]
  by (simp add: attached_writer_def static_storage_def BufferedFileWriter_def setFile_def
      clear_def bufferCount_def buffered_def fs_idle_def FS_FWrite_def upt_rec)

text \<open>
  C4. Starting from an empty buffer with a handle attached, a single write of
  \<open>BufferSize + 1\<close> bytes triggers exactly one automatic flush, which sends the first
  \<open>BufferSize\<close> bytes; it leaves exactly one byte buffered (\<open>bufferCount\<close> is 1), and a
  following explicit \<^verbatim>\<open>flush()\<close> sends that one remaining byte.
\<close>

theorem write_capacity_plus_one:
  assumes "filePtr s = Some f" and "bufferCount s = 0" and "length src = BufferSize + 1"
  shows "fs_calls (snd (snd (write_bytes s w src))) = fs_calls w @ [(f, take BufferSize src)] \<and>
         fst (write_bytes s w src) = fs_reply w (length (fs_calls w)) \<and>
         bufferCount (fst (snd (write_bytes s w src))) = 1 \<and>
         buffered (fst (snd (write_bytes s w src))) = drop BufferSize src \<and>
         fs_calls (snd (snd (flush (fst (snd (write_bytes s w src)))
                                   (snd (snd (write_bytes s w src)))))) =
           fs_calls w @ [(f, take BufferSize src), (f, drop BufferSize src)]"
proof -
  let ?pre = "take BufferSize src" and ?post = "drop BufferSize src"
  have p0: "writePtr s = 0" using assms(2) by (simp add: bufferCount_def)
  then have b0: "buffered s = []" by (simp add: buffered_def)
  have "writePtr s + length ?pre = BufferSize" "?pre \<noteq> []"
    using assms(3) p0 BufferSize_pos by auto
  from write_loop_fills [OF assms(1) this, of w 0] b0 obtain s1 where
    s1: "write_loop s w ?pre 0 =
           (fs_reply w (length (fs_calls w)), s1, w\<lparr>fs_calls := fs_calls w @ [(f, ?pre)]\<rparr>)"
      "writePtr s1 = 0"
    by auto
  let ?w1 = "w\<lparr>fs_calls := fs_calls w @ [(f, ?pre)]\<rparr>"
  let ?r1 = "fs_reply w (length (fs_calls w))"
  have "writePtr s1 + length ?post < BufferSize"
    using s1(2) assms(3) by (simp add: BufferSize_def)
  from write_loop_fits [OF this, of ?w1 ?r1] obtain s2 where
    s2: "write_loop s1 ?w1 ?post ?r1 = (?r1, s2, ?w1)"
      "writePtr s2 = writePtr s1 + length ?post" "buffered s2 = buffered s1 @ ?post"
    by blast
  have "write_loop s w (?pre @ ?post) 0 = (?r1, s2, ?w1)"
    unfolding write_loop_append using s1(1) s2(1) by simp
  then have res: "write_bytes s w src = (?r1, s2, ?w1)"
    using assms(1) by (simp add: write_bytes_def)
  have f2: "filePtr s2 = Some f"
    using write_loop_frame [OF s2(1)] write_loop_frame [OF s1(1)] assms(1) by simp
  have c2: "writePtr s2 = 1" using s2(2) s1(2) assms(3) by simp
  have b2: "buffered s2 = ?post" using s2(3) s1(2) by (simp add: buffered_def)
  have "fs_calls (snd (snd (flush s2 ?w1))) = fs_calls w @ [(f, ?pre), (f, ?post)]"
    using f2 c2 b2 by (simp add: flush_def FS_FWrite_def buffered_def)
  with res c2 b2 show ?thesis by (simp add: bufferCount_def)
qed

theorem write_capacity_plus_one_witness:
  "filePtr attached_writer = Some 1 \<and> bufferCount attached_writer = 0 \<and>
   length (replicate 4096 (65 :: byte) @ [66]) = BufferSize + 1 \<and>
   fs_calls (snd (snd (write_bytes attached_writer (fs_idle 1) (replicate 4096 65 @ [66])))) =
     [(1, replicate 4096 65)] \<and>
   bufferCount (fst (snd (write_bytes attached_writer (fs_idle 1) (replicate 4096 65 @ [66])))) = 1 \<and>
   buffered (fst (snd (write_bytes attached_writer (fs_idle 1) (replicate 4096 65 @ [66])))) = [66] \<and>
   fs_calls (snd (snd (flush
       (fst (snd (write_bytes attached_writer (fs_idle 1) (replicate 4096 65 @ [66]))))
       (snd (snd (write_bytes attached_writer (fs_idle 1) (replicate 4096 65 @ [66]))))))) =
     [(1, replicate 4096 65), (1, [66])]"
  using write_capacity_plus_one [of attached_writer 1 "replicate 4096 65 @ [66]" "fs_idle 1"]
  by (simp add: attached_writer_def setFile_def clear_def bufferCount_def BufferSize_def
      fs_idle_def)

text \<open>
  C5. When the automatic flush in the middle of a \<^verbatim>\<open>write\<close> call reports a failure (the
  file system answers the flush with any code \<open>err\<close>), the call does not abort. Let \<open>pre\<close>
  be the bytes up to the one that fills the buffer and \<open>post\<close> the bytes after it: the
  failed flush hands over the buffer with \<open>pre\<close>; every byte of \<open>post\<close> is still appended
  to the buffer (it is in a later underlying write or still buffered at the end, in
  order); and all bytes of \<open>pre\<close> and \<open>post\<close> are counted in \<open>bytesWrittenTotal\<close>. When \<open>post\<close>
  is shorter than the buffer, all of it is buffered at the end and the call returns \<open>err\<close>.
\<close>

theorem write_goes_on_after_failed_flush:
  assumes "filePtr s = Some f" and "bufferCount s + length pre = BufferSize" and "pre \<noteq> []"
    and "fs_reply w (length (fs_calls w)) = err"
  shows "\<exists>later.
           fs_calls (snd (snd (write_bytes s w (pre @ post)))) =
             fs_calls w @ (f, buffered s @ pre) # later \<and>
           concat (map snd later) @ buffered (fst (snd (write_bytes s w (pre @ post)))) = post \<and>
           getBytesWrittenTotal (fst (snd (write_bytes s w (pre @ post)))) =
             getBytesWrittenTotal s + of_nat (length pre) + of_nat (length post) \<and>
           (length post < BufferSize \<longrightarrow>
              later = [] \<and> fst (write_bytes s w (pre @ post)) = err)"
proof -
  let ?w1 = "w\<lparr>fs_calls := fs_calls w @ [(f, buffered s @ pre)]\<rparr>"
  have "writePtr s + length pre = BufferSize" using assms(2) by (simp add: bufferCount_def)
  from write_loop_fills [OF assms(1) this assms(3), of w 0] assms(4) obtain s1 where
    s1: "write_loop s w pre 0 = (err, s1, ?w1)" "writePtr s1 = 0"
    by auto
  have f1: "filePtr s1 = Some f" using write_loop_frame [OF s1(1)] assms(1) by simp
  have t1: "bytesWrittenTotal s1 = bytesWrittenTotal s + of_nat (length pre)"
    using write_loop_frame [OF s1(1)] by simp
  have b1: "buffered s1 = []" using s1(2) by (simp add: buffered_def)
  obtain r' s' w' where run: "write_loop s1 ?w1 post err = (r', s', w')"
    by (cases "write_loop s1 ?w1 post err") auto
  have res: "write_bytes s w (pre @ post) = (r', s', w')"
    using assms(1) s1(1) run by (simp add: write_bytes_def write_loop_append)
  have p1: "writePtr s1 < BufferSize" using s1(2) BufferSize_pos by simp
  from write_loop_stream [OF f1 p1 run] b1 obtain later where
    later: "fs_calls w' = fs_calls ?w1 @ later" "concat (map snd later) @ buffered s' = post"
    by auto
  have total: "bytesWrittenTotal s' =
      bytesWrittenTotal s + of_nat (length pre) + of_nat (length post)"
    using write_loop_frame [OF run] t1 by simp
  have short: "later = [] \<and> r' = err" if "length post < BufferSize"
  proof -
    from that s1(2) have "writePtr s1 + length post < BufferSize" by simp
    from write_loop_fits [OF this, of ?w1 err] run have "r' = err" "w' = ?w1" by auto
    with later(1) show ?thesis by simp
  qed
  from later total short have
    "fs_calls (snd (snd (write_bytes s w (pre @ post)))) =
       fs_calls w @ (f, buffered s @ pre) # later \<and>
     concat (map snd later) @ buffered (fst (snd (write_bytes s w (pre @ post)))) = post \<and>
     getBytesWrittenTotal (fst (snd (write_bytes s w (pre @ post)))) =
       getBytesWrittenTotal s + of_nat (length pre) + of_nat (length post) \<and>
     (length post < BufferSize \<longrightarrow>
        later = [] \<and> fst (write_bytes s w (pre @ post)) = err)"
    unfolding res by (simp add: getBytesWrittenTotal_def)
  then show ?thesis ..
qed

theorem write_goes_on_after_failed_flush_witness:
  "filePtr attached_writer = Some 1 \<and>
   bufferCount attached_writer + length (replicate 4096 (65 :: byte)) = BufferSize \<and>
   replicate 4096 (65 :: byte) \<noteq> [] \<and>
   fs_reply (fs_idle 0) (length (fs_calls (fs_idle 0))) = 0 \<and>
   fst (write_bytes attached_writer (fs_idle 0) (replicate 4096 65 @ [66, 67])) = 0 \<and>
   fs_calls (snd (snd (write_bytes attached_writer (fs_idle 0) (replicate 4096 65 @ [66, 67])))) =
     [(1, replicate 4096 65)] \<and>
   buffered (fst (snd (write_bytes attached_writer (fs_idle 0) (replicate 4096 65 @ [66, 67])))) =
     [66, 67] \<and>
   getBytesWrittenTotal
     (fst (snd (write_bytes attached_writer (fs_idle 0) (replicate 4096 65 @ [66, 67])))) = 4098"
  using write_goes_on_after_failed_flush
    [of attached_writer 1 "replicate 4096 65" "fs_idle 0" 0 "[66, 67]"]
  by (auto simp add: attached_writer_def setFile_def clear_def bufferCount_def BufferSize_def
      fs_idle_def buffered_def getBytesWrittenTotal_def BufferedFileWriter_def
      static_storage_def)

text \<open>
  C6 (amended). With no handle attached, \<^verbatim>\<open>write\<close> and \<^verbatim>\<open>writeStr\<close> buffer none of the
  bytes and leave the writer (cursor and \<open>bytesWrittenTotal\<close> included) and the file system
  as they were. \<^verbatim>\<open>write\<close>, and \<^verbatim>\<open>writeStr\<close> with a string that is not \<^verbatim>\<open>NULL\<close>, return
  \<open>WriteNoFile\<close>; \<^verbatim>\<open>writeStr\<close> with a \<^verbatim>\<open>NULL\<close> string returns 0, since it tests the string
  before it looks at the handle.
\<close>

theorem write_without_file:
  assumes "filePtr s = None"
  shows "write_bytes s w source = (WriteNoFile, s, w) \<and>
         writeStr s w (Some str) = (WriteNoFile, s, w) \<and>
         writeStr s w None = (0, s, w)"
  using assms by (simp add: write_bytes_def writeStr_def)

theorem write_without_file_witness:
  "filePtr (BufferedFileWriter static_storage) = None \<and>
   write_bytes (BufferedFileWriter static_storage) (fs_idle 1) [65, 66] =
     (WriteNoFile, BufferedFileWriter static_storage, fs_idle 1) \<and>
   writeStr (BufferedFileWriter static_storage) (fs_idle 1) (Some [72, 105, 0]) =
     (WriteNoFile, BufferedFileWriter static_storage, fs_idle 1) \<and>
   writeStr (BufferedFileWriter static_storage) (fs_idle 1) None =
     (0, BufferedFileWriter static_storage, fs_idle 1)"
  using write_without_file [of "BufferedFileWriter static_storage" "fs_idle 1" "[65, 66]"
      "[72, 105, 0]"]
  by (simp add: BufferedFileWriter_def clear_def)

text \<open>
  The claim as stated (every write operation without a handle returns \<open>WriteNoFile\<close>) fails
  for \<^verbatim>\<open>writeStr(NULL)\<close> on a freshly constructed writer.
\<close>

theorem writeStr_null_without_file_counterexample:
  "filePtr (BufferedFileWriter static_storage) = None \<and>
   fst (writeStr (BufferedFileWriter static_storage) (fs_idle 1) None) \<noteq> WriteNoFile"
  by (simp add: BufferedFileWriter_def clear_def writeStr_def WriteNoFile_def)

text \<open>
  C1 (amended). Start from an empty buffer with a handle attached and issue a sequence of
  \<^verbatim>\<open>write\<close> calls. If the total length is strictly less than \<open>BufferSize\<close>, no underlying
  write occurs during the calls (the file system is left as it was), all bytes are buffered
  in order, and a following explicit \<^verbatim>\<open>flush()\<close> issues exactly one underlying write whose
  content is the concatenation of all written bytes (and none when no byte was written).
  If the total length is exactly \<open>BufferSize\<close>, the byte that fills the buffer triggers the
  automatic flush inside the \<^verbatim>\<open>write\<close> call: it sends the concatenation in one underlying
  write, the buffer is empty afterwards, and a following explicit \<^verbatim>\<open>flush()\<close> issues nothing.
\<close>

theorem writes_below_capacity:
  assumes "filePtr s = Some f" and "bufferCount s = 0"
  shows "(sum_list (map length srcs) < BufferSize \<longrightarrow>
            snd (perform_all (map Write srcs) (s, w)) = w \<and>
            buffered (fst (perform_all (map Write srcs) (s, w))) = concat srcs \<and>
            fs_calls (snd (snd (flush (fst (perform_all (map Write srcs) (s, w)))
                                      (snd (perform_all (map Write srcs) (s, w)))))) =
              fs_calls w @ (if concat srcs = [] then [] else [(f, concat srcs)])) \<and>
         (sum_list (map length srcs) = BufferSize \<longrightarrow>
            fs_calls (snd (perform_all (map Write srcs) (s, w))) =
              fs_calls w @ [(f, concat srcs)] \<and>
            bufferCount (fst (perform_all (map Write srcs) (s, w))) = 0 \<and>
            fs_calls (snd (snd (flush (fst (perform_all (map Write srcs) (s, w)))
                                      (snd (perform_all (map Write srcs) (s, w)))))) =
              fs_calls w @ [(f, concat srcs)])"
proof (intro conjI impI)
  have p0: "writePtr s = 0" using assms(2) by (simp add: bufferCount_def)
  {
    assume "sum_list (map length srcs) < BufferSize"
    from writes_fit [OF assms(1) p0 this, of w] obtain s' where
      s': "perform_all (map Write srcs) (s, w) = (s', w)" "filePtr s' = Some f"
        "writePtr s' = length (concat srcs)" "buffered s' = concat srcs"
      by blast
    show "snd (perform_all (map Write srcs) (s, w)) = w" using s' by simp
    show "buffered (fst (perform_all (map Write srcs) (s, w))) = concat srcs" using s' by simp
    have "fs_calls (snd (snd (flush s' w))) =
        fs_calls w @ (if concat srcs = [] then [] else [(f, concat srcs)])"
    proof (cases "concat srcs = []")
      case True
      with s'(2,3) show ?thesis by (simp add: flush_def)
    next
      case False
      then have "0 < length (concat srcs)" by (rule length_greater_0_conv [THEN iffD2])
      then have "0 < writePtr s'" using s'(3) by (simp only:)
      with False s'(2) s'(4) [symmetric] show ?thesis
        by (simp add: flush_def FS_FWrite_def buffered_def)
    qed
    then show "fs_calls (snd (snd (flush (fst (perform_all (map Write srcs) (s, w)))
                                      (snd (perform_all (map Write srcs) (s, w)))))) =
              fs_calls w @ (if concat srcs = [] then [] else [(f, concat srcs)])"
      using s'(1) by simp
  }
  {
    assume "sum_list (map length srcs) = BufferSize"
    from writes_fill [OF assms(1) p0 this, of w] obtain s' where
      s': "perform_all (map Write srcs) (s, w) =
             (s', w\<lparr>fs_calls := fs_calls w @ [(f, concat srcs)]\<rparr>)"
        "filePtr s' = Some f" "writePtr s' = 0"
      by blast
    show "fs_calls (snd (perform_all (map Write srcs) (s, w))) = fs_calls w @ [(f, concat srcs)]"
      using s' by simp
    show "bufferCount (fst (perform_all (map Write srcs) (s, w))) = 0"
      using s' by (simp add: bufferCount_def)
    show "fs_calls (snd (snd (flush (fst (perform_all (map Write srcs) (s, w)))
                                      (snd (perform_all (map Write srcs) (s, w)))))) =
              fs_calls w @ [(f, concat srcs)]"
      using s' by (simp add: flush_def)
  }
qed

theorem writes_below_capacity_witness:
  "filePtr attached_writer = Some 1 \<and> bufferCount attached_writer = 0 \<and>
   sum_list (map length [[65, 66], [67 :: byte]]) < BufferSize \<and>
   snd (perform_all (map Write [[65, 66], [67]]) (attached_writer, fs_idle 1)) = fs_idle 1 \<and>
   buffered (fst (perform_all (map Write [[65, 66], [67]]) (attached_writer, fs_idle 1))) =
     [65, 66, 67] \<and>
   fs_calls (snd (snd (flush
       (fst (perform_all (map Write [[65, 66], [67]]) (attached_writer, fs_idle 1)))
       (snd (perform_all (map Write [[65, 66], [67]]) (attached_writer, fs_idle 1)))))) =
     [(1, [65, 66, 67])] \<and>
   sum_list (map length [replicate 4095 (65 :: byte), [66]]) = BufferSize \<and>
   fs_calls (snd (perform_all (map Write [replicate 4095 65, [66]])
       (attached_writer, fs_idle 1))) = [(1, replicate 4095 65 @ [66])] \<and>
   bufferCount (fst (perform_all (map Write [replicate 4095 65, [66]])
       (attached_writer, fs_idle 1))) = 0"
proof -
  have h: "filePtr attached_writer = Some 1" "bufferCount attached_writer = 0"
    by (simp_all add: attached_writer_def setFile_def clear_def bufferCount_def)
  have l1: "sum_list (map length [[65, 66], [67 :: byte]]) < BufferSize"
    and l2: "sum_list (map length [replicate 4095 (65 :: byte), [66]]) = BufferSize"
    by (simp_all add: BufferSize_def)
  note below = writes_below_capacity [OF h, of "[[65, 66], [67]]" "fs_idle 1",
      THEN conjunct1, rule_format, OF l1]
  note exact = writes_below_capacity [OF h, of "[replicate 4095 65, [66]]" "fs_idle 1",
      THEN conjunct2, rule_format, OF l2]
  have "fs_calls (fs_idle 1) = []" by (simp add: fs_idle_def)
  with h l1 l2 below exact show ?thesis by auto
qed

text \<open>
  The claim as stated (no automatic flush up to and including a total of \<open>BufferSize\<close>
  bytes) fails for a single write of 4096 bytes: the file system is called during the
  write, and the explicit flush that follows adds no call.
\<close>

theorem write_exactly_capacity_counterexample:
  "filePtr attached_writer = Some 1 \<and> bufferCount attached_writer = 0 \<and>
   sum_list (map length [replicate 4096 (65 :: byte)]) \<le> BufferSize \<and>
   snd (perform_all (map Write [replicate 4096 65]) (attached_writer, fs_idle 1)) \<noteq> fs_idle 1 \<and>
   fs_calls (snd (perform_all (map Write [replicate 4096 65]) (attached_writer, fs_idle 1))) =
     [(1, replicate 4096 65)] \<and>
   fs_calls (snd (snd (flush
       (fst (perform_all (map Write [replicate 4096 65]) (attached_writer, fs_idle 1)))
       (snd (perform_all (map Write [replicate 4096 65]) (attached_writer, fs_idle 1)))))) =
     [(1, replicate 4096 65)]"
proof -
  have a: "filePtr attached_writer = Some 1" "writePtr attached_writer = 0"
    by (simp_all add: attached_writer_def setFile_def clear_def)
  have "sum_list (map length [replicate 4096 (65 :: byte)]) = BufferSize"
    by (simp add: BufferSize_def)
  from writes_fill [OF a this, of "fs_idle 1"] obtain s' where
    s': "perform_all (map Write [replicate 4096 65]) (attached_writer, fs_idle 1) =
           (s', fs_idle 1\<lparr>fs_calls := fs_calls (fs_idle 1) @ [(1, concat [replicate 4096 65])]\<rparr>)"
      "filePtr s' = Some 1" "writePtr s' = 0"
    by blast
  have "flush s' w = (0, s', w)" for w using s'(2,3) by (simp add: flush_def)
  with s'(1) a show ?thesis
    by (simp add: bufferCount_def BufferSize_def fs_idle_def)
qed

text \<open>
  C2. For every sequence of calls made with a handle attached that neither resets the
  counter nor detaches the handle (so: \<^verbatim>\<open>write\<close>, \<^verbatim>\<open>writeStr\<close>, explicit flushes, \<^verbatim>\<open>clear\<close>,
  re-attachments), \<^verbatim>\<open>getBytesWrittenTotal()\<close> afterwards is its value before plus the sum of
  the byte lengths passed to the \<^verbatim>\<open>write\<close> and \<^verbatim>\<open>writeStr\<close> calls, however many flushes
  occurred. The sum is taken in \<^verbatim>\<open>size_t\<close>, the type of the counter; starting from 0, it is
  the sum as a number whenever that fits in \<^verbatim>\<open>size_t\<close>. \<^verbatim>\<open>resetBytesWrittenTotal()\<close> sets
  the counter to 0, and \<^verbatim>\<open>setFile()\<close> leaves it unchanged.
\<close>

theorem total_is_sum_of_bytes_passed:
  fixes s t :: "'sz::len writer"
  assumes "filePtr s \<noteq> None" and "ResetBytesWrittenTotal \<notin> set cs" and "SetFile None \<notin> set cs"
  shows "getBytesWrittenTotal (fst (perform_all cs (s, w))) =
           getBytesWrittenTotal s + of_nat (sum_list (map bytes_passed cs)) \<and>
         (getBytesWrittenTotal s = 0 \<and> sum_list (map bytes_passed cs) < 2 ^ LENGTH('sz) \<longrightarrow>
            unat (getBytesWrittenTotal (fst (perform_all cs (s, w)))) =
              sum_list (map bytes_passed cs)) \<and>
         getBytesWrittenTotal (resetBytesWrittenTotal t) = 0 \<and>
         getBytesWrittenTotal (setFile t h) = getBytesWrittenTotal t"
proof -
  have sum: "getBytesWrittenTotal (fst (perform_all cs (s, w))) =
      getBytesWrittenTotal s + of_nat (sum_list (map bytes_passed cs))"
    using perform_all_counts [OF assms] by (simp add: getBytesWrittenTotal_def)
  have "unat (getBytesWrittenTotal (fst (perform_all cs (s, w)))) =
      sum_list (map bytes_passed cs)"
    if "getBytesWrittenTotal s = 0" "sum_list (map bytes_passed cs) < 2 ^ LENGTH('sz)"
    using sum that of_nat_inverse [OF refl, of "sum_list (map bytes_passed cs)", where ?'a = "'sz"] by simp
  with sum show ?thesis
    by (simp add: getBytesWrittenTotal_def resetBytesWrittenTotal_def setFile_def clear_def)
qed

theorem total_is_sum_of_bytes_passed_witness:
  "filePtr attached_writer \<noteq> None \<and>
   ResetBytesWrittenTotal \<notin>
     set [Write [65, 66], WriteStr (Some [72, 105, 0, 9]), Flush, WriteStr None,
          SetFile (Some 2), Write [67]] \<and>
   SetFile None \<notin>
     set [Write [65, 66], WriteStr (Some [72, 105, 0, 9]), Flush, WriteStr None,
          SetFile (Some 2), Write [67]] \<and>
   getBytesWrittenTotal attached_writer = 0 \<and>
   getBytesWrittenTotal (fst (perform_all
       [Write [65, 66], WriteStr (Some [72, 105, 0, 9]), Flush, WriteStr None,
        SetFile (Some 2), Write [67]] (attached_writer, fs_idle 1))) = 5 \<and>
   unat (getBytesWrittenTotal (fst (perform_all
       [Write [65, 66], WriteStr (Some [72, 105, 0, 9]), Flush, WriteStr None,
        SetFile (Some 2), Write [67]] (attached_writer, fs_idle 1)))) = 5 \<and>
   getBytesWrittenTotal (resetBytesWrittenTotal attached_writer) = 0 \<and>
   getBytesWrittenTotal (setFile attached_writer None) = getBytesWrittenTotal attached_writer"
  using total_is_sum_of_bytes_passed [of attached_writer
      "[Write [65, 66], WriteStr (Some [72, 105, 0, 9]), Flush, WriteStr None,
        SetFile (Some 2), Write [67]]" "fs_idle 1" attached_writer None]
  by (simp add: attached_writer_def setFile_def clear_def BufferedFileWriter_def
      static_storage_def getBytesWrittenTotal_def strlen_def)

text \<open>
  C10. After construction and after every public call that follows (\<^verbatim>\<open>setFile\<close>, \<^verbatim>\<open>clear\<close>,
  \<^verbatim>\<open>write\<close>, \<^verbatim>\<open>writeStr\<close>, \<^verbatim>\<open>flush\<close>, \<^verbatim>\<open>resetBytesWrittenTotal\<close>), whatever the storage held
  and whatever the file system answers, \<^verbatim>\<open>bufferCount()\<close> is strictly less than
  \<open>BufferSize\<close>: the buffer is never left exactly full.
\<close>

theorem buffer_never_left_full:
  "bufferCount (fst (perform_all cs (BufferedFileWriter raw, w))) < BufferSize"
proof -
  have "writePtr (BufferedFileWriter raw) < BufferSize"
    using BufferSize_pos by (simp add: BufferedFileWriter_def clear_def)
  from perform_all_keeps_room [OF this] show ?thesis by (simp add: bufferCount_def)
qed

theorem buffer_never_left_full_witness:
  "bufferCount (fst (perform_all
      [SetFile (Some 1), Write (replicate 4096 65), WriteStr (Some [72, 105, 0]), Flush, Clear]
      (BufferedFileWriter static_storage, fs_idle 1))) < BufferSize"
  using buffer_never_left_full [of
      "[SetFile (Some 1), Write (replicate 4096 65), WriteStr (Some [72, 105, 0]), Flush, Clear]"
      static_storage "fs_idle 1"]
  by simp

text \<open>
  C7 (the code departs from the claim). \<^verbatim>\<open>logPrintf\<close> is declared to return \<^verbatim>\<open>bool\<close> and
  documented to return true on success, but its body ends without a \<^verbatim>\<open>return\<close> statement
  and drops the code of \<^verbatim>\<open>write\<close>: no call of \<^verbatim>\<open>logPrintf\<close> returns true or false. For
  example, printing a format that expands to "Hi" through an attached writer appends the
  two bytes and counts them, and yields no value.
\<close>

theorem logPrintf_returns_no_bool:
  "logPrintf s w fmt \<noteq> Inr (Some b, s', w') \<and>
   (\<exists>s1. logPrintf attached_writer (fs_idle 1) (Some [72, 105]) = Inr (None, s1, fs_idle 1) \<and>
         buffered s1 = [72, 105] \<and> getBytesWrittenTotal s1 = 2)"
proof
  show "logPrintf s w fmt \<noteq> Inr (Some b, s', w')"
    by (simp add: logPrintf_def vsnprintf_def Let_def split: option.splits prod.splits)
  have "[0..<2] = [0, 1]" by (simp add: upt_rec)
  then show "\<exists>s1. logPrintf attached_writer (fs_idle 1) (Some [72, 105]) =
                 Inr (None, s1, fs_idle 1) \<and>
               buffered s1 = [72, 105] \<and> getBytesWrittenTotal s1 = 2"
    by (simp add: logPrintf_def vsnprintf_def Let_def LineBuffSize_def write_bytes_def
        writeEndPtr_def BufferSize_def attached_writer_def setFile_def clear_def
        BufferedFileWriter_def static_storage_def buffered_def getBytesWrittenTotal_def)
qed

text \<open>
  C8 (the code departs from the claim for \<^verbatim>\<open>logPrintf\<close>). \<^verbatim>\<open>writeStr\<close> with a \<^verbatim>\<open>NULL\<close>
  string is a no-op: it returns 0 and leaves the writer (buffer, cursor, counter) and the
  file system as they were. \<^verbatim>\<open>logPrintf\<close> with a \<^verbatim>\<open>NULL\<close> format is not: the format goes
  unchecked to \<^verbatim>\<open>vsnprintf\<close>, where a null format is undefined behaviour.
\<close>

theorem logPrintf_null_format:
  "writeStr s w None = (0, s, w) \<and> logPrintf s w None = Inl NullFormat"
  by (simp add: writeStr_def logPrintf_def)

text \<open>
  C9 (the code departs from the claim). \<^verbatim>\<open>logPrintf\<close> forwards the length that
  \<^verbatim>\<open>vsnprintf\<close> returns, not the length of what was stored. On a freshly attached writer
  in zero-filled storage, a format that expands to 2049 bytes \<open>A\<close> (one more than the
  line buffer's 2048) appends 2049 bytes: the 2047 stored bytes of the text, the
  terminator and the byte behind it; \<open>bufferCount\<close> and \<open>bytesWrittenTotal\<close> are 2049, not
  2047. A format that expands to 2050 bytes makes \<^verbatim>\<open>write\<close> read behind the end of
  \<^verbatim>\<open>lineBuff\<close>.
\<close>

theorem logPrintf_forwards_untruncated_length:
  "(\<exists>s'. logPrintf attached_writer (fs_idle 1) (Some (replicate 2049 65)) =
            Inr (None, s', fs_idle 1) \<and>
          buffered s' = replicate 2047 65 @ [0, 0] \<and>
          bufferCount s' = 2049 \<and> getBytesWrittenTotal s' = 2049) \<and>
   logPrintf attached_writer (fs_idle 1) (Some (replicate 2050 65)) = Inl LineBuffOverread"
proof -
  have a: "filePtr attached_writer = Some 1" "writePtr attached_writer = 0"
    by (simp_all add: attached_writer_def setFile_def clear_def)
  have "length (replicate 2049 (65 :: byte)) = LineBuffSize + 1"
    by (simp add: LineBuffSize_def)
  from logPrintf_one_too_long [OF a this, of "fs_idle 1"] obtain s' where
    s': "logPrintf attached_writer (fs_idle 1) (Some (replicate 2049 65)) =
           Inr (None, s', fs_idle 1)"
      "buffered s' = take (LineBuffSize - 1) (replicate 2049 65) @
           [0, lineBuff attached_writer LineBuffSize]"
      "bytesWrittenTotal s' = bytesWrittenTotal attached_writer + of_nat (LineBuffSize + 1)"
    by blast
  have b: "buffered s' = replicate 2047 65 @ [0, 0]"
    using s'(2)
    by (simp add: LineBuffSize_def attached_writer_def setFile_def clear_def
        BufferedFileWriter_def static_storage_def)
  have "length (buffered s') = 2049" unfolding b by simp
  then have c: "bufferCount s' = 2049" by (simp add: buffered_def bufferCount_def)
  have t: "getBytesWrittenTotal s' = 2049"
    using s'(3)
    by (simp add: LineBuffSize_def attached_writer_def setFile_def clear_def
        BufferedFileWriter_def static_storage_def getBytesWrittenTotal_def)
  have "logPrintf attached_writer (fs_idle 1) (Some (replicate 2050 65)) = Inl LineBuffOverread"
    by (rule logPrintf_overread [OF a(1)]) (simp_all add: LineBuffSize_def)
  with s'(1) b c t show ?thesis by blast
qed

end
